theory Spec2Isabelle
  imports Main "HOL-Library.Word"
begin

section \<open>MatrixKeypad: the scanner of MatrixKeypad.c\<close>

text \<open>
  The library keeps one heap object per keypad (\<^verbatim>\<open>MatrixKeypad_t\<close>) and reaches the
  hardware through the Arduino core: \<^verbatim>\<open>pinMode\<close>, \<^verbatim>\<open>digitalWrite\<close>, \<^verbatim>\<open>digitalRead\<close>,
  \<^verbatim>\<open>millis\<close> and \<^verbatim>\<open>malloc\<close>. The embedding below passes the object and the pins
  explicitly: a pointer to the object is a \<open>MatrixKeypad_t option\<close> (\<open>None\<close> is
  \<^verbatim>\<open>NULL\<close>), every function that writes through the pointer returns the object as it
  is afterwards.
\<close>

subsection \<open>Machine types\<close>

type_synonym u8 = "8 word"
type_synonym u16 = "16 word"
type_synonym u32 = "32 word"

text \<open>The character \<^verbatim>\<open>'\0'\<close>: "no key".\<close>

abbreviation NUL :: char where
  "NUL \<equiv> CHR 0x00"

subsection \<open>The pins\<close>

datatype level = LOW | HIGH

datatype pin_mode = INPUT | OUTPUT | INPUT_PULLUP

text \<open>
  What the program has told the pins so far: the mode set last and the level written
  last, for every pin number.
\<close>

record board =
  mode_of :: "u8 \<Rightarrow> pin_mode"
  level_of :: "u8 \<Rightarrow> level"

text \<open>
  Modelled from the spec: \<^verbatim>\<open>pinMode\<close> and \<^verbatim>\<open>digitalWrite\<close> belong to the Arduino core
  (\<^verbatim>\<open>Arduino.h\<close>), which the sources only include. The spec gives them as "set a given
  pin identifier to output mode; drive it to a logical high or low level" and "set a
  given pin identifier to input mode with pull-up biasing".
\<close>

definition pinMode :: "u8 \<Rightarrow> pin_mode \<Rightarrow> board \<Rightarrow> board" where
  "pinMode pin m b = b\<lparr>mode_of := (mode_of b)(pin := m)\<rparr>"

definition digitalWrite :: "u8 \<Rightarrow> level \<Rightarrow> board \<Rightarrow> board" where
  "digitalWrite pin v b = b\<lparr>level_of := (level_of b)(pin := v)\<rparr>"

text \<open>
  \<^verbatim>\<open>digitalRead\<close> samples a column line; what it returns depends on the keys held down at
  that instant, which the program sees in no other way. One scan pass reads every cell of
  the matrix once, so the readings of a pass are a function of the row index being driven
  low and the column index being read: \<open>rd row col\<close> is the value of
  \<^verbatim>\<open>digitalRead(keypad->colPins[col])\<close> in the iteration \<open>(row, col)\<close>. Any behaviour of
  the keys and wires during a pass is one such function.
\<close>

type_synonym readings = "nat \<Rightarrow> nat \<Rightarrow> level"

subsection \<open>The keypad object\<close>

text \<open>
  \<^verbatim>\<open>rowPins\<close>, \<^verbatim>\<open>colPins\<close> and \<^verbatim>\<open>keyMap\<close> are pointers to arrays of the caller, which the
  library never writes and never copies. A pointer is modelled by the memory it points
  to, read by index: \<open>keyMap keypad i\<close> is \<^verbatim>\<open>keypad->keyMap[i]\<close>. C does not check the
  index, and neither does the model.
\<close>

record MatrixKeypad_t =
  rown :: u8
  coln :: u8
  rowPins :: "nat \<Rightarrow> u8"
  colPins :: "nat \<Rightarrow> u8"
  keyMap :: "nat \<Rightarrow> char"
  lastKey :: char
  buffer :: char

text \<open>A pointer to the keypad object together with the pins.\<close>

type_synonym state = "MatrixKeypad_t option \<times> board"

subsection \<open>\<^verbatim>\<open>MatrixKeypad_create\<close>\<close>

text \<open>
  The row loop and the column loop of \<^verbatim>\<open>MatrixKeypad_create\<close>. The counter \<^verbatim>\<open>i\<close> is a \<^verbatim>\<open>uint8_t\<close> that stays
  below \<^verbatim>\<open>rown\<close> (\<^verbatim>\<open>coln\<close>), itself a \<^verbatim>\<open>uint8_t\<close>, so it never wraps and is a \<open>nat\<close> here.
\<close>

function create_rows :: "MatrixKeypad_t \<Rightarrow> nat \<Rightarrow> board \<Rightarrow> board" where
  "create_rows keypad i b =
     (if i < unat (rown keypad)
      then create_rows keypad (i + 1)
             (digitalWrite (rowPins keypad i) HIGH (pinMode (rowPins keypad i) OUTPUT b))
      else b)"
  by pat_completeness auto
termination
  by (relation "measure (\<lambda>(keypad, i, b). unat (rown keypad) - i)") auto

function create_cols :: "MatrixKeypad_t \<Rightarrow> nat \<Rightarrow> board \<Rightarrow> board" where
  "create_cols keypad i b =
     (if i < unat (coln keypad)
      then create_cols keypad (i + 1) (pinMode (colPins keypad i) INPUT_PULLUP b)
      else b)"
  by pat_completeness auto
termination
  by (relation "measure (\<lambda>(keypad, i, b). unat (coln keypad) - i)") auto

text \<open>
  \<open>malloc_ok\<close> says whether \<^verbatim>\<open>malloc\<close> returns storage; when it does not, the function
  returns \<^verbatim>\<open>NULL\<close> before it touches a pin.
\<close>

definition MatrixKeypad_create ::
  "bool \<Rightarrow> (nat \<Rightarrow> char) \<Rightarrow> (nat \<Rightarrow> u8) \<Rightarrow> (nat \<Rightarrow> u8) \<Rightarrow> u8 \<Rightarrow> u8 \<Rightarrow> board \<Rightarrow> state" where
  "MatrixKeypad_create malloc_ok keymap rowPins' colPins' rown' coln' b =
     (if \<not> malloc_ok then (None, b)
      else
        let keypad = \<lparr>rown = rown', coln = coln', rowPins = rowPins', colPins = colPins',
                       keyMap = keymap, lastKey = NUL, buffer = NUL\<rparr>
        in (Some keypad, create_cols keypad 0 (create_rows keypad 0 b)))"

subsection \<open>\<^verbatim>\<open>MatrixKeypad_scan\<close>\<close>

text \<open>
  The inner loop over the columns of one row. The index \<^verbatim>\<open>row * keypad->coln + col\<close> is
  computed in \<^verbatim>\<open>int\<close>; it is at most \<open>254 * 255 + 254\<close>, and is a \<open>nat\<close> here.
\<close>

function scan_cols :: "MatrixKeypad_t \<Rightarrow> readings \<Rightarrow> nat \<Rightarrow> nat \<Rightarrow> char \<Rightarrow> char" where
  "scan_cols keypad rd row col key =
     (if col < unat (coln keypad)
      then scan_cols keypad rd row (col + 1)
             (if rd row col = LOW
              then keyMap keypad (row * unat (coln keypad) + col)
              else key)
      else key)"
  by pat_completeness auto
termination
  by (relation "measure (\<lambda>(keypad, rd, row, col, key). unat (coln keypad) - col)") auto

text \<open>The outer loop: drive the row low, read its columns, drive it high again.\<close>

function scan_rows :: "MatrixKeypad_t \<Rightarrow> readings \<Rightarrow> nat \<Rightarrow> char \<Rightarrow> board \<Rightarrow> char \<times> board" where
  "scan_rows keypad rd row key b =
     (if row < unat (rown keypad)
      then scan_rows keypad rd (row + 1)
             (scan_cols keypad rd row 0 key)
             (digitalWrite (rowPins keypad row) HIGH (digitalWrite (rowPins keypad row) LOW b))
      else (key, b))"
  by pat_completeness auto
termination
  by (relation "measure (\<lambda>(keypad, rd, row, key, b). unat (rown keypad) - row)") auto

text \<open>The key the sweep of a pass ends with: \<^verbatim>\<open>key\<close> after the nested loop.\<close>

definition scanned_key :: "MatrixKeypad_t \<Rightarrow> readings \<Rightarrow> board \<Rightarrow> char" where
  "scanned_key keypad rd b = fst (scan_rows keypad rd 0 NUL b)"

fun MatrixKeypad_scan :: "readings \<Rightarrow> state \<Rightarrow> state" where
  "MatrixKeypad_scan rd (None, b) = (None, b)"
| "MatrixKeypad_scan rd (Some keypad, b) =
     (let (key, b') = scan_rows keypad rd 0 NUL b
      in (Some (if lastKey keypad \<noteq> key
                then (if key \<noteq> NUL
                      then keypad\<lparr>lastKey := key, buffer := key\<rparr>
                      else keypad\<lparr>lastKey := key\<rparr>)
                else keypad),
          b'))"

subsection \<open>\<^verbatim>\<open>MatrixKeypad_hasKey\<close>, \<^verbatim>\<open>MatrixKeypad_getKey\<close>, \<^verbatim>\<open>MatrixKeypad_flush\<close>\<close>

fun MatrixKeypad_hasKey :: "MatrixKeypad_t option \<Rightarrow> u8" where
  "MatrixKeypad_hasKey None = 0"
| "MatrixKeypad_hasKey (Some keypad) = (if buffer keypad \<noteq> NUL then 1 else 0)"

text \<open>The character returned and the object afterwards.\<close>

fun MatrixKeypad_getKey :: "MatrixKeypad_t option \<Rightarrow> char \<times> MatrixKeypad_t option" where
  "MatrixKeypad_getKey None = (NUL, None)"
| "MatrixKeypad_getKey (Some keypad) = (buffer keypad, Some (keypad\<lparr>buffer := NUL\<rparr>))"

fun MatrixKeypad_flush :: "MatrixKeypad_t option \<Rightarrow> MatrixKeypad_t option" where
  "MatrixKeypad_flush None = None"
| "MatrixKeypad_flush (Some keypad) = Some (keypad\<lparr>buffer := NUL\<rparr>)"

subsection \<open>\<^verbatim>\<open>MatrixKeypad_waitForKey\<close>\<close>

text \<open>
  The loop \<^verbatim>\<open>while(!MatrixKeypad_hasKey(keypad)) MatrixKeypad_scan(keypad);\<close> runs for as
  long as no key is pressed, possibly forever. \<open>passes n\<close> gives the readings of the
  \<open>n\<close>-th scan the loop makes (counted from 0); the first argument bounds the number of
  scans, and the result is \<open>None\<close> when the loop is still running after that many. A
  result \<open>Some (st, n)\<close> is the state at the exit of the loop and the number of scans made.
\<close>

fun waitForKey_loop :: "nat \<Rightarrow> (nat \<Rightarrow> readings) \<Rightarrow> nat \<Rightarrow> state \<Rightarrow> (state \<times> nat) option" where
  "waitForKey_loop 0 passes n st =
     (if MatrixKeypad_hasKey (fst st) = 0 then None else Some (st, n))"
| "waitForKey_loop (Suc fuel) passes n st =
     (if MatrixKeypad_hasKey (fst st) = 0
      then waitForKey_loop fuel passes (n + 1) (MatrixKeypad_scan (passes n) st)
      else Some (st, n))"

text \<open>The character returned, the state afterwards and the number of scans made.\<close>

definition MatrixKeypad_waitForKey ::
  "nat \<Rightarrow> (nat \<Rightarrow> readings) \<Rightarrow> state \<Rightarrow> (char \<times> state \<times> nat) option" where
  "MatrixKeypad_waitForKey fuel passes st =
     (case fst st of
        None \<Rightarrow> Some (NUL, st, 0)
      | Some keypad \<Rightarrow>
          (case waitForKey_loop fuel passes 0 st of
             None \<Rightarrow> None
           | Some (st', n) \<Rightarrow>
               let (key, keypad') = MatrixKeypad_getKey (fst st')
               in Some (key, (keypad', snd st'), n)))"

subsection \<open>\<^verbatim>\<open>MatrixKeypad_waitForKeyTimeout\<close>\<close>

text \<open>
  Modelled from the spec: \<^verbatim>\<open>millis\<close> belongs to the Arduino core (\<^verbatim>\<open>Arduino.h\<close>), which the
  sources only include; the spec gives it as "an unsigned, fixed-width, wrapping tick
  counter in milliseconds". The core declares \<^verbatim>\<open>unsigned long millis(void)\<close>, and
  \<^verbatim>\<open>unsigned long\<close> has 32 bits on the boards the core supports. \<open>clock k\<close> is what the \<open>k\<close>-th call of \<^verbatim>\<open>millis\<close>
  made by the function returns (counted from 0): call 0 initialises \<^verbatim>\<open>startTime\<close>, and
  the loop condition of iteration \<open>n\<close> makes call \<open>n + 1\<close>, since \<^verbatim>\<open>&&\<close> evaluates
  \<^verbatim>\<open>millis()\<close> only when no key is buffered, and otherwise the loop ends.

  \<^verbatim>\<open>startTime\<close> is a \<^verbatim>\<open>uint16_t\<close>: the initialisation keeps the low 16 bits of the counter.
  In \<^verbatim>\<open>(millis() - startTime) <= timeout\<close> the operands \<^verbatim>\<open>startTime\<close> and \<^verbatim>\<open>timeout\<close> are
  converted to \<^verbatim>\<open>unsigned long\<close>, and the subtraction wraps at 32 bits.
\<close>

fun waitForKeyTimeout_loop ::
  "nat \<Rightarrow> (nat \<Rightarrow> u32) \<Rightarrow> (nat \<Rightarrow> readings) \<Rightarrow> u16 \<Rightarrow> u16 \<Rightarrow> nat \<Rightarrow> state \<Rightarrow> (state \<times> nat) option" where
  "waitForKeyTimeout_loop 0 clock passes startTime timeout n st =
     (if MatrixKeypad_hasKey (fst st) = 0 \<and> clock (n + 1) - ucast startTime \<le> ucast timeout
      then None
      else Some (st, n))"
| "waitForKeyTimeout_loop (Suc fuel) clock passes startTime timeout n st =
     (if MatrixKeypad_hasKey (fst st) = 0 \<and> clock (n + 1) - ucast startTime \<le> ucast timeout
      then waitForKeyTimeout_loop fuel clock passes startTime timeout (n + 1)
             (MatrixKeypad_scan (passes n) st)
      else Some (st, n))"

definition MatrixKeypad_waitForKeyTimeout ::
  "nat \<Rightarrow> (nat \<Rightarrow> u32) \<Rightarrow> (nat \<Rightarrow> readings) \<Rightarrow> state \<Rightarrow> u16 \<Rightarrow> (char \<times> state \<times> nat) option" where
  "MatrixKeypad_waitForKeyTimeout fuel clock passes st timeout =
     (let startTime = (ucast (clock 0) :: u16)
      in case fst st of
           None \<Rightarrow> Some (NUL, st, 0)
         | Some keypad \<Rightarrow>
             (case waitForKeyTimeout_loop fuel clock passes startTime timeout 0 st of
                None \<Rightarrow> None
              | Some (st', n) \<Rightarrow>
                  let (key, keypad') = MatrixKeypad_getKey (fst st')
                  in Some (key, (keypad', snd st'), n)))"

subsection \<open>A keypad to compute with\<close>

text \<open>
  The keypad of the example in \<^verbatim>\<open>MatrixKeypad.h\<close>: four rows on the pins 10, 9, 8, 7,
  three columns on the pins 6, 5, 4, and the keys of a telephone.
\<close>

definition ex_keymap :: "nat \<Rightarrow> char" where
  "ex_keymap i = (if i < 12 then ''123456789*0#'' ! i else NUL)"

definition ex_rowPins :: "nat \<Rightarrow> u8" where
  "ex_rowPins i = (if i < 4 then [10, 9, 8, 7] ! i else 0)"

definition ex_colPins :: "nat \<Rightarrow> u8" where
  "ex_colPins i = (if i < 3 then [6, 5, 4] ! i else 0)"

definition ex_keypad :: MatrixKeypad_t where
  "ex_keypad = \<lparr>rown = 4, coln = 3, rowPins = ex_rowPins, colPins = ex_colPins,
                 keyMap = ex_keymap, lastKey = NUL, buffer = NUL\<rparr>"

definition ex_board :: board where
  "ex_board = \<lparr>mode_of = (\<lambda>pin. INPUT), level_of = (\<lambda>pin. LOW)\<rparr>"

text \<open>The readings of a pass during which exactly the cells of a list are shorted.\<close>

definition held :: "(nat \<times> nat) list \<Rightarrow> readings" where
  "held cells = (\<lambda>row col. if (row, col) \<in> set cells then LOW else HIGH)"

text \<open>The same readings in every pass; a clock that advances by one at every call.\<close>

definition every_pass :: "readings \<Rightarrow> nat \<Rightarrow> readings" where
  "every_pass rd n = rd"

definition clock_from :: "u32 \<Rightarrow> nat \<Rightarrow> u32" where
  "clock_from t k = t + of_nat k"

subsection \<open>Notions the properties are stated with\<close>

text \<open>The state after the first \<open>n\<close> scans of a sequence of passes.\<close>

primrec scans :: "(nat \<Rightarrow> readings) \<Rightarrow> nat \<Rightarrow> state \<Rightarrow> state" where
  "scans passes 0 st = st"
| "scans passes (Suc n) st = MatrixKeypad_scan (passes n) (scans passes n st)"

text \<open>
  A character is one of the \<^verbatim>\<open>rown * coln\<close> entries of a key map; an object (if any) has
  the given geometry and key map, and each of \<^verbatim>\<open>lastKey\<close> and \<^verbatim>\<open>buffer\<close> is \<^verbatim>\<open>'\0'\<close> or an
  entry of the key map.
\<close>

definition map_entry :: "u8 \<Rightarrow> u8 \<Rightarrow> (nat \<Rightarrow> char) \<Rightarrow> char \<Rightarrow> bool" where
  "map_entry rn cn km k \<longleftrightarrow> (\<exists>i < unat rn * unat cn. k = km i)"

fun keys_from_map :: "u8 \<Rightarrow> u8 \<Rightarrow> (nat \<Rightarrow> char) \<Rightarrow> MatrixKeypad_t option \<Rightarrow> bool" where
  "keys_from_map rn cn km None = True"
| "keys_from_map rn cn km (Some keypad) \<longleftrightarrow>
     rown keypad = rn \<and> coln keypad = cn \<and> keyMap keypad = km \<and>
     (lastKey keypad = NUL \<or> map_entry rn cn km (lastKey keypad)) \<and>
     (buffer keypad = NUL \<or> map_entry rn cn km (buffer keypad))"

section \<open>Properties\<close>

text \<open>
  The equations of the four loop functions rewrite a call into an \<open>if\<close> with the same call
  inside: they are used by hand.
\<close>

declare create_rows.simps [simp del]
declare create_cols.simps [simp del]
declare scan_cols.simps [simp del]
declare scan_rows.simps [simp del]

subsection \<open>The sweep of a pass\<close>

text \<open>Each loop visits its indices in increasing order, once each.\<close>

lemma scan_cols_fold:
  "scan_cols keypad rd row col key =
     fold (\<lambda>c k. if rd row c = LOW then keyMap keypad (row * unat (coln keypad) + c) else k)
       [col..<unat (coln keypad)] key"
proof (induction keypad rd row col key rule: scan_cols.induct)
  case (1 keypad rd row col key)
  show ?case
  proof (cases "col < unat (coln keypad)")
    case True
    then show ?thesis
      using "1.IH" by (subst scan_cols.simps) (simp add: upt_conv_Cons)
  next
    case False
    then show ?thesis
      by (subst scan_cols.simps) simp
  qed
qed

lemma scan_rows_fold:
  "fst (scan_rows keypad rd row key b) =
     fold (\<lambda>r k. scan_cols keypad rd r 0 k) [row..<unat (rown keypad)] key"
proof (induction keypad rd row key b rule: scan_rows.induct)
  case (1 keypad rd row key b)
  show ?case
  proof (cases "row < unat (rown keypad)")
    case True
    then show ?thesis
      using "1.IH" by (subst scan_rows.simps) (simp add: upt_conv_Cons)
  next
    case False
    then show ?thesis
      by (subst scan_rows.simps) simp
  qed
qed

lemma fold_no_hit:
  "(\<And>x. x \<in> set xs \<Longrightarrow> f x = id) \<Longrightarrow> fold f xs k = k"
  by (induction xs arbitrary: k) auto

lemma fold_last_hit:
  assumes "a \<le> c" "c < n" "f c k' = v" 
    and "\<And>x. c < x \<Longrightarrow> x < n \<Longrightarrow> f x = id"
    and "k' = fold f [a..<c] k"
  shows "fold f [a..<n] k = v"
proof -
  have "[a..<n] = [a..<c] @ [c..<n]"
    using upt_add_eq_append [of a c "n - c"] assms(1,2) by simp
  then have "[a..<n] = [a..<c] @ c # [Suc c..<n]"
    using assms(2) by (simp add: upt_conv_Cons)
  moreover have "fold f [Suc c..<n] v = v"
    using assms(4) by (intro fold_no_hit) auto
  ultimately show ?thesis
    using assms(3,5) by simp
qed


lemma scan_cols_idle:
  assumes "\<And>c. c < unat (coln keypad) \<Longrightarrow> rd row c \<noteq> LOW"
  shows "scan_cols keypad rd row 0 key = key"
  unfolding scan_cols_fold using assms by (intro fold_no_hit) auto

lemma scan_cols_last:
  assumes "c < unat (coln keypad)" "rd row c = LOW"
    and "\<And>c'. c < c' \<Longrightarrow> c' < unat (coln keypad) \<Longrightarrow> rd row c' \<noteq> LOW"
  shows "scan_cols keypad rd row 0 key = keyMap keypad (row * unat (coln keypad) + c)"
  unfolding scan_cols_fold
  by (rule fold_last_hit [where c = c, OF _ assms(1) _ _ refl]) (use assms in auto)

lemma scanned_key_idle:
  assumes "\<And>r c. r < unat (rown keypad) \<Longrightarrow> c < unat (coln keypad) \<Longrightarrow> rd r c \<noteq> LOW"
  shows "scanned_key keypad rd b = NUL"
  unfolding scanned_key_def scan_rows_fold
  using assms by (intro fold_no_hit) (auto simp: fun_eq_iff scan_cols_idle)

lemma scanned_key_last:
  assumes "r < unat (rown keypad)" "c < unat (coln keypad)" "rd r c = LOW"
    and "\<And>c'. c < c' \<Longrightarrow> c' < unat (coln keypad) \<Longrightarrow> rd r c' \<noteq> LOW"
    and "\<And>r' c'. r < r' \<Longrightarrow> r' < unat (rown keypad) \<Longrightarrow> c' < unat (coln keypad) \<Longrightarrow> rd r' c' \<noteq> LOW"
  shows "scanned_key keypad rd b = keyMap keypad (r * unat (coln keypad) + c)"
  unfolding scanned_key_def scan_rows_fold
proof (rule fold_last_hit [where c = r, OF _ assms(1) _ _ refl])
  show "0 \<le> r" by simp
  show "scan_cols keypad rd r 0 (fold (\<lambda>r. scan_cols keypad rd r 0) [0..<r] NUL) =
        keyMap keypad (r * unat (coln keypad) + c)"
    using assms(2,3,4) by (rule scan_cols_last)
  show "scan_cols keypad rd x 0 = id" if "r < x" "x < unat (rown keypad)" for x
    using that assms(5) by (auto simp: fun_eq_iff scan_cols_idle)
qed

lemma scan_Some:
  "MatrixKeypad_scan rd (Some keypad, b) =
     (Some (if lastKey keypad \<noteq> scanned_key keypad rd b
            then (if scanned_key keypad rd b \<noteq> NUL
                  then keypad\<lparr>lastKey := scanned_key keypad rd b, buffer := scanned_key keypad rd b\<rparr>
                  else keypad\<lparr>lastKey := scanned_key keypad rd b\<rparr>)
            else keypad),
      snd (scan_rows keypad rd 0 NUL b))"
  by (simp add: scanned_key_def split: prod.splits)

text \<open>From here on a scan is unfolded in this form, with the sweep folded into \<open>scanned_key\<close>.\<close>

declare MatrixKeypad_scan.simps(2) [simp del]

lemma scan_None: "MatrixKeypad_scan rd (None, b) = (None, b)"
  by simp

text \<open>The sweep reads the geometry and the key map only.\<close>

lemma scanned_key_fields:
  assumes "rown keypad' = rown keypad" "coln keypad' = coln keypad" "keyMap keypad' = keyMap keypad"
  shows "scanned_key keypad' rd b' = scanned_key keypad rd b"
proof -
  have "scan_cols keypad' rd r 0 = scan_cols keypad rd r 0" for r
    using assms by (simp add: fun_eq_iff scan_cols_fold cong: if_cong)
  then show ?thesis
    using assms by (simp add: scanned_key_def scan_rows_fold)
qed

text \<open>The example keypad with the key in row 1, column 2 held down: the sweep ends with \<open>6\<close>.\<close>

lemma ex_scanned_key_6: "scanned_key ex_keypad (held [(1, 2)]) ex_board = CHR ''6''"
  by (simp add: scanned_key_def ex_keypad_def held_def ex_keymap_def scan_rows.simps scan_cols.simps)

text \<open>With three keys held down, the last one in the order of the sweep is kept.\<close>

lemma ex_scanned_key_9:
  "scanned_key ex_keypad (held [(2, 2), (0, 1), (2, 0)]) ex_board = CHR ''9''"
  by (simp add: scanned_key_def ex_keypad_def held_def ex_keymap_def scan_rows.simps scan_cols.simps)

text \<open>Among the cells of a finite grid that satisfy a predicate, one is last.\<close>

lemma last_active_cell:
  fixes A :: "nat \<Rightarrow> nat \<Rightarrow> bool"
  assumes "\<exists>r c. r < R \<and> c < N \<and> A r c"
  shows "\<exists>r c. r < R \<and> c < N \<and> A r c \<and>
           (\<forall>r' c'. r' < R \<and> c' < N \<and> A r' c' \<longrightarrow> r' \<le> r) \<and>
           (\<forall>c'. c' < N \<and> A r c' \<longrightarrow> c' \<le> c)"
proof -
  let ?S = "{r. r < R \<and> (\<exists>c<N. A r c)}"
  have fS: "finite ?S" by simp
  have neS: "?S \<noteq> {}" using assms by auto
  define r where "r = Max ?S"
  have rS: "r \<in> ?S" unfolding r_def using fS neS by (rule Max_in)
  have r_max: "r' \<le> r" if "r' < R" "c' < N" "A r' c'" for r' c'
  proof -
    have "r' \<in> ?S" using that by auto
    then show ?thesis unfolding r_def using fS by (intro Max_ge)
  qed
  let ?T = "{c. c < N \<and> A r c}"
  have fT: "finite ?T" by simp
  have neT: "?T \<noteq> {}" using rS by auto
  define c where "c = Max ?T"
  have cT: "c \<in> ?T" unfolding c_def using fT neT by (rule Max_in)
  have c_max: "c' \<le> c" if "c' < N" "A r c'" for c'
  proof -
    have "c' \<in> ?T" using that by auto
    then show ?thesis unfolding c_def using fT by (intro Max_ge)
  qed
  show ?thesis
    using rS cT r_max c_max by blast
qed

subsection \<open>The loop of \<^verbatim>\<open>MatrixKeypad_waitForKey\<close>\<close>

text \<open>
  The loop ends after \<open>j\<close> scans exactly when \<open>j\<close> is the first number of scans after
  which a key is buffered.
\<close>

lemma hasKey_0_or_1: "MatrixKeypad_hasKey p = 0 \<or> MatrixKeypad_hasKey p = 1"
  by (cases p) auto

lemma scans_shift:
  "scans (\<lambda>i. passes (Suc (n0 + i))) j (MatrixKeypad_scan (passes n0) st) =
   scans (\<lambda>i. passes (n0 + i)) (Suc j) st"
  by (induction j) simp_all

lemma waitForKey_loop_first:
  assumes "MatrixKeypad_hasKey (fst (scans (\<lambda>i. passes (n0 + i)) j st)) \<noteq> 0"
    and "\<forall>m<j. MatrixKeypad_hasKey (fst (scans (\<lambda>i. passes (n0 + i)) m st)) = 0"
    and "j \<le> fuel"
  shows "waitForKey_loop fuel passes n0 st = Some (scans (\<lambda>i. passes (n0 + i)) j st, n0 + j)"
  using assms
proof (induction j arbitrary: fuel n0 st)
  case 0
  then show ?case by (cases fuel) simp_all
next
  case (Suc j)
  obtain f where fuel: "fuel = Suc f" and f: "j \<le> f"
    using Suc.prems(3) by (cases fuel) auto
  have now: "MatrixKeypad_hasKey (fst st) = 0"
    using Suc.prems(2) by (auto dest: spec [of _ 0])
  let ?st1 = "MatrixKeypad_scan (passes n0) st"
  have "waitForKey_loop f passes (Suc n0) ?st1 =
          Some (scans (\<lambda>i. passes (Suc n0 + i)) j ?st1, Suc n0 + j)"
  proof (rule Suc.IH [OF _ _ f])
    show "MatrixKeypad_hasKey (fst (scans (\<lambda>i. passes (Suc n0 + i)) j ?st1)) \<noteq> 0"
      using Suc.prems(1) scans_shift [of passes n0 j st] by simp
    show "\<forall>m<j. MatrixKeypad_hasKey (fst (scans (\<lambda>i. passes (Suc n0 + i)) m ?st1)) = 0"
    proof (intro allI impI)
      fix m assume "m < j"
      then have "Suc m < Suc j" by simp
      with Suc.prems(2)
      have "MatrixKeypad_hasKey (fst (scans (\<lambda>i. passes (n0 + i)) (Suc m) st)) = 0"
        by blast
      then show "MatrixKeypad_hasKey (fst (scans (\<lambda>i. passes (Suc n0 + i)) m ?st1)) = 0"
        using scans_shift [of passes n0 m st] by simp
    qed
  qed
  then show ?case
    using now fuel scans_shift [of passes n0 j st] by simp
qed

lemma waitForKey_loop_none:
  assumes "\<forall>m\<le>fuel. MatrixKeypad_hasKey (fst (scans (\<lambda>i. passes (n0 + i)) m st)) = 0"
  shows "waitForKey_loop fuel passes n0 st = None"
  using assms
proof (induction fuel arbitrary: n0 st)
  case 0
  then show ?case by simp
next
  case (Suc fuel)
  have now: "MatrixKeypad_hasKey (fst st) = 0"
    using Suc.prems by (auto dest: spec [of _ 0])
  have "waitForKey_loop fuel passes (Suc n0) (MatrixKeypad_scan (passes n0) st) = None"
  proof (rule Suc.IH, intro allI impI)
    fix m assume "m \<le> fuel"
    then have "Suc m \<le> Suc fuel" by simp
    with Suc.prems
    have "MatrixKeypad_hasKey (fst (scans (\<lambda>i. passes (n0 + i)) (Suc m) st)) = 0"
      by blast
    then show "MatrixKeypad_hasKey (fst (scans (\<lambda>i. passes (Suc n0 + i)) m
                 (MatrixKeypad_scan (passes n0) st))) = 0"
      using scans_shift [of passes n0 m st] by simp
  qed
  then show ?case using now by simp
qed

lemma waitForKey_loop_iff:
  "waitForKey_loop fuel passes 0 st = Some (st', n) \<longleftrightarrow>
     n \<le> fuel \<and> st' = scans passes n st \<and>
     MatrixKeypad_hasKey (fst (scans passes n st)) \<noteq> 0 \<and>
     (\<forall>m<n. MatrixKeypad_hasKey (fst (scans passes m st)) = 0)"
proof (cases "\<exists>j\<le>fuel. MatrixKeypad_hasKey (fst (scans passes j st)) \<noteq> 0")
  case True
  define j where "j = (LEAST j. MatrixKeypad_hasKey (fst (scans passes j st)) \<noteq> 0)"
  have j: "MatrixKeypad_hasKey (fst (scans passes j st)) \<noteq> 0"
    unfolding j_def using True by (metis (mono_tags, lifting) LeastI)
  have least: "\<forall>m<j. MatrixKeypad_hasKey (fst (scans passes m st)) = 0"
    unfolding j_def using not_less_Least by blast
  have "j \<le> fuel"
    unfolding j_def using True by (meson Least_le le_trans)
  then have run: "waitForKey_loop fuel passes 0 st = Some (scans passes j st, j)"
    using waitForKey_loop_first [of passes 0 j st fuel] j least by simp
  show ?thesis
  proof
    assume "waitForKey_loop fuel passes 0 st = Some (st', n)"
    then show "n \<le> fuel \<and> st' = scans passes n st \<and>
        MatrixKeypad_hasKey (fst (scans passes n st)) \<noteq> 0 \<and>
        (\<forall>m<n. MatrixKeypad_hasKey (fst (scans passes m st)) = 0)"
      using run j least \<open>j \<le> fuel\<close> by auto
  next
    assume r: "n \<le> fuel \<and> st' = scans passes n st \<and>
        MatrixKeypad_hasKey (fst (scans passes n st)) \<noteq> 0 \<and>
        (\<forall>m<n. MatrixKeypad_hasKey (fst (scans passes m st)) = 0)"
    then have "n = j"
      using j least by (meson linorder_neqE_nat)
    then show "waitForKey_loop fuel passes 0 st = Some (st', n)"
      using run r by simp
  qed
next
  case False
  then have "waitForKey_loop fuel passes 0 st = None"
    using waitForKey_loop_none [of fuel passes 0 st] by simp
  then show ?thesis
    using False by auto
qed

subsection \<open>Keys come from the key map\<close>

text \<open>
  The sweep reads the key map at indices below \<^verbatim>\<open>rown * coln\<close> only, so it ends with
  \<^verbatim>\<open>'\0'\<close> or with an entry of the map; the scan and each waiting loop keep the two state slots
  among these characters.
\<close>

lemma fold_preserves:
  "P k \<Longrightarrow> (\<And>x k. x \<in> set xs \<Longrightarrow> P k \<Longrightarrow> P (f x k)) \<Longrightarrow> P (fold f xs k)"
  by (induction xs arbitrary: k) simp_all

lemma cell_index_less:
  fixes r c :: nat
  assumes "r < R" "c < N"
  shows "r * N + c < R * N"
proof -
  have "r * N + c < Suc r * N" using assms(2) by simp
  also have "\<dots> \<le> R * N" using assms(1) by (intro mult_le_mono1) simp
  finally show ?thesis .
qed

lemma scanned_key_entry:
  "scanned_key keypad rd b = NUL \<or>
   map_entry (rown keypad) (coln keypad) (keyMap keypad) (scanned_key keypad rd b)"
proof -
  let ?P = "\<lambda>k. k = NUL \<or> map_entry (rown keypad) (coln keypad) (keyMap keypad) k"
  have cell: "?P (if rd r c = LOW then keyMap keypad (r * unat (coln keypad) + c) else k)"
    if "r \<in> set [0..<unat (rown keypad)]" "c \<in> set [0..<unat (coln keypad)]" "?P k" for r c k
  proof -
    have "r * unat (coln keypad) + c < unat (rown keypad) * unat (coln keypad)"
      using that(1,2) by (intro cell_index_less) simp_all
    then have "map_entry (rown keypad) (coln keypad) (keyMap keypad)
                 (keyMap keypad (r * unat (coln keypad) + c))"
      unfolding map_entry_def by blast
    then show ?thesis
      using that(3) by simp
  qed
  have row: "?P (scan_cols keypad rd r 0 k)"
    if "r \<in> set [0..<unat (rown keypad)]" "?P k" for r k
    unfolding scan_cols_fold
    using that(2) cell [OF that(1)] by (rule fold_preserves [where P = ?P])
  have "?P (fold (\<lambda>r. scan_cols keypad rd r 0) [0..<unat (rown keypad)] NUL)"
    using _ row by (rule fold_preserves [where P = ?P]) simp
  then show ?thesis
    by (simp add: scanned_key_def scan_rows_fold)
qed

lemma waitForKey_Some:
  assumes "MatrixKeypad_waitForKey fuel passes (Some keypad, b) = Some (key, st', n)"
  shows "\<exists>s. waitForKey_loop fuel passes 0 (Some keypad, b) = Some (s, n) \<and>
           key = fst (MatrixKeypad_getKey (fst s)) \<and>
           st' = (snd (MatrixKeypad_getKey (fst s)), snd s)"
  using assms by (auto simp: MatrixKeypad_waitForKey_def split: option.splits prod.splits)

lemma waitForKeyTimeout_Some:
  assumes "MatrixKeypad_waitForKeyTimeout fuel clock passes (Some keypad, b) timeout =
             Some (key, st', n)"
  shows "\<exists>s. waitForKeyTimeout_loop fuel clock passes (ucast (clock 0)) timeout 0
                (Some keypad, b) = Some (s, n) \<and>
           key = fst (MatrixKeypad_getKey (fst s)) \<and>
           st' = (snd (MatrixKeypad_getKey (fst s)), snd s)"
  using assms
  by (auto simp: MatrixKeypad_waitForKeyTimeout_def Let_def split: option.splits prod.splits)

lemma scan_keeps_keys_from_map:
  assumes "keys_from_map rn cn km (fst st)"
  shows "keys_from_map rn cn km (fst (MatrixKeypad_scan rd st))"
proof (cases st)
  case (Pair p b)
  show ?thesis
  proof (cases p)
    case None
    then show ?thesis using Pair by simp
  next
    case (Some keypad)
    then show ?thesis
      using assms Pair scanned_key_entry [of keypad rd b] by (auto simp: scan_Some)
  qed
qed

lemma getKey_keeps_keys_from_map:
  "keys_from_map rn cn km p \<Longrightarrow> keys_from_map rn cn km (snd (MatrixKeypad_getKey p))"
  by (cases p) simp_all

lemma waitForKey_loop_keeps:
  "keys_from_map rn cn km (fst st) \<Longrightarrow> waitForKey_loop fuel passes n st = Some (st', n') \<Longrightarrow>
   keys_from_map rn cn km (fst st')"
proof (induction fuel arbitrary: n st)
  case 0
  then show ?case by (simp split: if_splits)
next
  case (Suc fuel)
  show ?case
  proof (cases "MatrixKeypad_hasKey (fst st) = 0")
    case True
    then have "waitForKey_loop fuel passes (n + 1) (MatrixKeypad_scan (passes n) st) = Some (st', n')"
      using Suc.prems(2) by simp
    then show ?thesis
      using Suc.IH scan_keeps_keys_from_map [OF Suc.prems(1)] by blast
  next
    case False
    then show ?thesis using Suc.prems by simp
  qed
qed

lemma waitForKeyTimeout_loop_keeps:
  "keys_from_map rn cn km (fst st) \<Longrightarrow>
   waitForKeyTimeout_loop fuel clock passes startTime timeout n st = Some (st', n') \<Longrightarrow>
   keys_from_map rn cn km (fst st')"
proof (induction fuel arbitrary: n st)
  case 0
  then show ?case by (simp split: if_splits)
next
  case (Suc fuel)
  show ?case
  proof (cases "MatrixKeypad_hasKey (fst st) = 0 \<and> clock (n + 1) - ucast startTime \<le> ucast timeout")
    case True
    then have "waitForKeyTimeout_loop fuel clock passes startTime timeout (n + 1)
                 (MatrixKeypad_scan (passes n) st) = Some (st', n')"
      using Suc.prems(2) by simp
    then show ?thesis
      using Suc.IH scan_keeps_keys_from_map [OF Suc.prems(1)] by blast
  next
    case False
    then show ?thesis using Suc.prems by auto
  qed
qed

subsection \<open>The loop test of \<^verbatim>\<open>MatrixKeypad_waitForKeyTimeout\<close>\<close>

text \<open>
  \<^verbatim>\<open>startTime\<close> holds the counter modulo 65536. Once the counter has reached 65536, the
  difference \<^verbatim>\<open>millis() - startTime\<close> is at least 65536, more than any \<^verbatim>\<open>uint16_t\<close>
  timeout, so the loop is left at its first test.
\<close>

lemma trunc_start: "unat (ucast (ucast (x :: u32) :: u16) :: u32) = unat x mod 65536"
  by (simp add: unsigned_ucast_eq take_bit_eq_mod unat_mod_distrib)

lemma t16: "unat (ucast (t :: u16) :: u32) < 65536"
proof -
  have "unat t < 2 ^ 16" using unsigned_less [of t] by simp
  then show ?thesis by (simp add: unsigned_ucast_eq take_bit_eq_mod)
qed

lemma timeout_test_fails_late:
  assumes "65536 \<le> unat (t0 :: u32)" "unat t0 \<le> unat (t1 :: u32)"
  shows "\<not> (t1 - ucast (ucast t0 :: u16) \<le> (ucast (timeout :: u16) :: u32))"
proof -
  let ?s = "ucast (ucast t0 :: u16) :: u32"
  have s: "unat ?s = unat t0 mod 65536" by (rule trunc_start)
  have low: "unat t0 mod 65536 \<le> unat t0" by simp
  have "unat ?s \<le> unat t1" using assms(2) s low by linarith
  then have "?s \<le> t1" by (simp add: word_le_nat_alt)
  then have d: "unat (t1 - ?s) = unat t1 - unat ?s" by (rule unat_sub)
  have "unat t0 = 65536 * (unat t0 div 65536) + unat t0 mod 65536" by simp
  moreover have "1 \<le> unat t0 div 65536" using assms(1) by (simp add: div_greater_zero_iff Suc_le_eq)
  ultimately have "65536 + unat t0 mod 65536 \<le> unat t0" by linarith
  then have "65536 \<le> unat (t1 - ?s)" using assms(2) s d by linarith
  then show ?thesis
    using t16 [of timeout] by (simp add: word_le_nat_alt)
qed


text \<open>Before that, \<^verbatim>\<open>startTime\<close> is the counter itself and the test compares the true difference.\<close>

lemma start_kept_below_65536:
  "unat (t0 :: u32) < 65536 \<Longrightarrow> (ucast (ucast t0 :: u16) :: u32) = t0"
  by (simp add: word_unat_eq_iff trunc_start)

lemma waitForKeyTimeout_late_entry:
  assumes "65536 \<le> unat (clock 0)" "unat (clock 0) \<le> unat (clock 1)"
  shows "MatrixKeypad_waitForKeyTimeout fuel clock passes (Some keypad, b) timeout =
           Some (buffer keypad, (Some (keypad\<lparr>buffer := NUL\<rparr>), b), 0)"
proof -
  have "\<not> (clock 1 - ucast (ucast (clock 0) :: u16) \<le> (ucast timeout :: u32))"
    using assms by (rule timeout_test_fails_late)
  then have "waitForKeyTimeout_loop fuel clock passes (ucast (clock 0)) timeout 0 (Some keypad, b) =
      Some ((Some keypad, b), 0)"
    by (cases fuel) simp_all
  then show ?thesis
    by (simp add: MatrixKeypad_waitForKeyTimeout_def)
qed

text \<open>The example keypad waiting while the key in row 1, column 2 is held down: one scan.\<close>

lemma ex_waitForKey_run:
  "MatrixKeypad_waitForKey 5 (every_pass (held [(1, 2)])) (Some ex_keypad, ex_board) =
   Some (CHR ''6'',
         (Some (ex_keypad\<lparr>lastKey := CHR ''6''\<rparr>),
          snd (MatrixKeypad_scan (held [(1, 2)]) (Some ex_keypad, ex_board))),
         1)"
proof -
  have l: "lastKey ex_keypad = NUL" "buffer ex_keypad = NUL"
    by (simp_all add: ex_keypad_def)
  have "\<exists>b1. MatrixKeypad_scan (held [(1, 2)]) (Some ex_keypad, ex_board) =
      (Some (ex_keypad\<lparr>lastKey := CHR ''6'', buffer := CHR ''6''\<rparr>), b1)"
    unfolding scan_Some ex_scanned_key_6 l by simp
  then obtain b1 where s1: "MatrixKeypad_scan (held [(1, 2)]) (Some ex_keypad, ex_board) =
      (Some (ex_keypad\<lparr>lastKey := CHR ''6'', buffer := CHR ''6''\<rparr>), b1)"
    by blast
  have f: "(5::nat) = Suc (Suc (Suc (Suc (Suc 0))))"
    by simp
  have "waitForKey_loop 5 (every_pass (held [(1, 2)])) 0 (Some ex_keypad, ex_board) =
      Some ((Some (ex_keypad\<lparr>lastKey := CHR ''6'', buffer := CHR ''6''\<rparr>), b1), 1)"
    unfolding f every_pass_def by (simp add: l s1 del: One_nat_def)
  then show ?thesis
    unfolding s1 by (simp add: MatrixKeypad_waitForKey_def ex_keypad_def)
qed

text \<open>The example keypad with no key held down, under a clock that starts at 0.\<close>

lemma ex_scan_idle:
  "MatrixKeypad_scan (held []) (Some ex_keypad, b) =
     (Some ex_keypad, snd (scan_rows ex_keypad (held []) 0 NUL b))"
proof -
  have "scanned_key ex_keypad (held []) b = NUL"
    by (rule scanned_key_idle) (simp add: held_def)
  moreover have "lastKey ex_keypad = NUL"
    by (simp add: ex_keypad_def)
  ultimately show ?thesis
    by (simp add: scan_Some)
qed

lemma ex_timeout_low_clock:
  "\<exists>b'. MatrixKeypad_waitForKeyTimeout 5 (clock_from 0) (every_pass (held []))
          (Some ex_keypad, ex_board) 2 =
        Some (NUL, (Some ex_keypad, b'), 2)"
proof -
  have buf: "buffer ex_keypad = NUL" "ex_keypad\<lparr>buffer := NUL\<rparr> = ex_keypad"
    by (simp_all add: ex_keypad_def)
  have c: "clock_from 0 0 = 0" "clock_from 0 (Suc 0) = 1" "clock_from 0 (Suc (Suc 0)) = 2"
    "clock_from 0 (Suc (Suc (Suc 0))) = 3"
    by (simp_all add: clock_from_def)
  have f: "(5::nat) = Suc (Suc (Suc (Suc (Suc 0))))"
    by simp
  have u: "(ucast (2 :: u16) :: u32) = 2" "(ucast (0 :: u32) :: u16) = 0"
    by simp_all
  show ?thesis
    unfolding MatrixKeypad_waitForKeyTimeout_def f
    by (simp add: every_pass_def ex_scan_idle buf c u)
qed

subsection \<open>Edge detection\<close>

text \<open>
  C1. Let \<open>k\<close> be the key the sweep of a pass ends with. If \<open>k\<close> equals \<^verbatim>\<open>lastKey\<close>, the
  scan leaves the object as it is, \<^verbatim>\<open>lastKey\<close> and \<^verbatim>\<open>buffer\<close> included. If \<open>k\<close> differs from
  \<^verbatim>\<open>lastKey\<close>, the scan sets \<^verbatim>\<open>lastKey\<close> to \<open>k\<close>; it sets \<^verbatim>\<open>buffer\<close> to \<open>k\<close> as well when
  \<open>k\<close> is not \<^verbatim>\<open>'\0'\<close>, and leaves \<^verbatim>\<open>buffer\<close> alone when \<open>k\<close> is \<^verbatim>\<open>'\0'\<close> (a release). No other
  field changes.
\<close>

theorem scan_edge_latch:
  "\<exists>keypad' b'. MatrixKeypad_scan rd (Some keypad, b) = (Some keypad', b') \<and>
     (scanned_key keypad rd b = lastKey keypad \<longrightarrow> keypad' = keypad) \<and>
     (scanned_key keypad rd b \<noteq> lastKey keypad \<and> scanned_key keypad rd b \<noteq> NUL \<longrightarrow>
        keypad' = keypad\<lparr>lastKey := scanned_key keypad rd b, buffer := scanned_key keypad rd b\<rparr>) \<and>
     (scanned_key keypad rd b \<noteq> lastKey keypad \<and> scanned_key keypad rd b = NUL \<longrightarrow>
        keypad' = keypad\<lparr>lastKey := NUL\<rparr>)"
  by (auto simp: scan_Some)

theorem scan_edge_latch_witness:
  "\<exists>keypad' b'. MatrixKeypad_scan (held [(1, 2)]) (Some ex_keypad, ex_board) = (Some keypad', b') \<and>
     keypad' = ex_keypad\<lparr>lastKey := CHR ''6'', buffer := CHR ''6''\<rparr>"
proof -
  have k: "scanned_key ex_keypad (held [(1, 2)]) ex_board = CHR ''6''"
    by (rule ex_scanned_key_6)
  have l: "lastKey ex_keypad = NUL"
    by (simp add: ex_keypad_def)
  show ?thesis
    using scan_edge_latch [of "held [(1, 2)]" ex_keypad ex_board] unfolding k l by simp
qed

subsection \<open>Reading the buffer\<close>

text \<open>
  C2. On a keypad object \<^verbatim>\<open>MatrixKeypad_getKey\<close> returns \<^verbatim>\<open>buffer\<close> and sets it to \<^verbatim>\<open>'\0'\<close>,
  so a second call that follows at once returns \<^verbatim>\<open>'\0'\<close>. In particular, after a scan
  that has buffered a pressed key (the swept key is not \<^verbatim>\<open>'\0'\<close> and differs from
  \<^verbatim>\<open>lastKey\<close>), the first call returns that key and the second, with no scan in between,
  returns \<^verbatim>\<open>'\0'\<close>.
\<close>

theorem getKey_once:
  "MatrixKeypad_getKey (Some keypad) = (buffer keypad, Some (keypad\<lparr>buffer := NUL\<rparr>)) \<and>
   fst (MatrixKeypad_getKey (snd (MatrixKeypad_getKey (Some keypad)))) = NUL \<and>
   (scanned_key keypad rd b \<noteq> lastKey keypad \<and> scanned_key keypad rd b \<noteq> NUL \<longrightarrow>
      fst (MatrixKeypad_getKey (fst (MatrixKeypad_scan rd (Some keypad, b)))) = scanned_key keypad rd b \<and>
      fst (MatrixKeypad_getKey (snd (MatrixKeypad_getKey (fst (MatrixKeypad_scan rd (Some keypad, b)))))) = NUL)"
  by (simp add: scan_Some)

theorem getKey_once_witness:
  "fst (MatrixKeypad_getKey (fst (MatrixKeypad_scan (held [(1, 2)]) (Some ex_keypad, ex_board)))) = CHR ''6'' \<and>
   fst (MatrixKeypad_getKey (snd (MatrixKeypad_getKey
      (fst (MatrixKeypad_scan (held [(1, 2)]) (Some ex_keypad, ex_board)))))) = NUL"
proof -
  have k: "scanned_key ex_keypad (held [(1, 2)]) ex_board = CHR ''6''"
    by (rule ex_scanned_key_6)
  have l: "lastKey ex_keypad = NUL"
    by (simp add: ex_keypad_def)
  show ?thesis
    using getKey_once [of ex_keypad "held [(1, 2)]" ex_board] unfolding k l by simp
qed

text \<open>
  C7. If \<^verbatim>\<open>buffer\<close> is \<^verbatim>\<open>'\0'\<close> before a scan during which no column of the matrix reads
  low, then after the scan \<^verbatim>\<open>MatrixKeypad_hasKey\<close> returns 0 and \<^verbatim>\<open>MatrixKeypad_getKey\<close>
  returns \<^verbatim>\<open>'\0'\<close>.
\<close>

theorem no_phantom_press:
  assumes "buffer keypad = NUL"
    and "\<forall>r c. r < unat (rown keypad) \<and> c < unat (coln keypad) \<longrightarrow> rd r c = HIGH"
  shows "MatrixKeypad_hasKey (fst (MatrixKeypad_scan rd (Some keypad, b))) = 0 \<and>
         fst (MatrixKeypad_getKey (fst (MatrixKeypad_scan rd (Some keypad, b)))) = NUL"
proof -
  have "scanned_key keypad rd b = NUL"
    using assms(2) by (intro scanned_key_idle) auto
  then show ?thesis
    using assms(1) by (simp add: scan_Some)
qed

theorem no_phantom_press_witness:
  "MatrixKeypad_hasKey (fst (MatrixKeypad_scan (held []) (Some ex_keypad, ex_board))) = 0 \<and>
   fst (MatrixKeypad_getKey (fst (MatrixKeypad_scan (held []) (Some ex_keypad, ex_board)))) = NUL"
proof (rule no_phantom_press)
  show "buffer ex_keypad = NUL"
    by (simp add: ex_keypad_def)
  show "\<forall>r c. r < unat (rown ex_keypad) \<and> c < unat (coln ex_keypad) \<longrightarrow> held [] r c = HIGH"
    by (simp add: held_def)
qed

subsection \<open>Several cells at once\<close>

text \<open>
  C3. In a scan during which at least one cell of the matrix reads low, there is a cell
  \<open>(r, c)\<close> that reads low such that no cell of a higher row reads low and no cell of
  row \<open>r\<close> in a higher column reads low; the key the sweep ends with, which the scan
  records in \<^verbatim>\<open>lastKey\<close>, is \<^verbatim>\<open>keyMap[r * coln + c]\<close>.
\<close>

theorem scan_last_active_wins:
  assumes "\<exists>r c. r < unat (rown keypad) \<and> c < unat (coln keypad) \<and> rd r c = LOW"
  shows "\<exists>r c. r < unat (rown keypad) \<and> c < unat (coln keypad) \<and> rd r c = LOW \<and>
           (\<forall>r' c'. r' < unat (rown keypad) \<and> c' < unat (coln keypad) \<and> rd r' c' = LOW \<longrightarrow> r' \<le> r) \<and>
           (\<forall>c'. c' < unat (coln keypad) \<and> rd r c' = LOW \<longrightarrow> c' \<le> c) \<and>
           scanned_key keypad rd b = keyMap keypad (r * unat (coln keypad) + c) \<and>
           (\<exists>keypad' b'. MatrixKeypad_scan rd (Some keypad, b) = (Some keypad', b') \<and>
              lastKey keypad' = keyMap keypad (r * unat (coln keypad) + c))"
proof -
  obtain r c where rc: "r < unat (rown keypad)" "c < unat (coln keypad)" "rd r c = LOW"
    and r_max: "\<forall>r' c'. r' < unat (rown keypad) \<and> c' < unat (coln keypad) \<and> rd r' c' = LOW \<longrightarrow> r' \<le> r"
    and c_max: "\<forall>c'. c' < unat (coln keypad) \<and> rd r c' = LOW \<longrightarrow> c' \<le> c"
    using last_active_cell [OF assms] by blast
  have k: "scanned_key keypad rd b = keyMap keypad (r * unat (coln keypad) + c)"
  proof (rule scanned_key_last [where rd = rd and r = r and c = c, OF rc])
    show "rd r c' \<noteq> LOW" if "c < c'" "c' < unat (coln keypad)" for c'
      using that c_max by (meson not_le)
    show "rd r' c' \<noteq> LOW" if "r < r'" "r' < unat (rown keypad)" "c' < unat (coln keypad)" for r' c'
      using that r_max by (meson not_le)
  qed
  have "\<exists>keypad' b'. MatrixKeypad_scan rd (Some keypad, b) = (Some keypad', b') \<and>
          lastKey keypad' = scanned_key keypad rd b"
    by (simp add: scan_Some)
  with rc r_max c_max k show ?thesis
    by metis
qed

theorem scan_last_active_wins_witness:
  "\<exists>r c. r < 4 \<and> c < 3 \<and> held [(2, 2), (0, 1), (2, 0)] r c = LOW \<and>
     (\<forall>r' c'. r' < 4 \<and> c' < 3 \<and> held [(2, 2), (0, 1), (2, 0)] r' c' = LOW \<longrightarrow> r' \<le> r) \<and>
     (\<forall>c'. c' < 3 \<and> held [(2, 2), (0, 1), (2, 0)] r c' = LOW \<longrightarrow> c' \<le> c) \<and>
     CHR ''9'' = ex_keymap (r * 3 + c)"
proof -
  have "\<exists>r c. r < unat (rown ex_keypad) \<and> c < unat (coln ex_keypad) \<and>
          held [(2, 2), (0, 1), (2, 0)] r c = LOW"
    by (intro exI [of _ 2]) (simp add: ex_keypad_def held_def)
  from scan_last_active_wins [OF this, of ex_board] show ?thesis
    unfolding ex_scanned_key_9 by (auto simp: ex_keypad_def)
qed

subsection \<open>Flushing\<close>

text \<open>
  C6. On a keypad object \<^verbatim>\<open>MatrixKeypad_flush\<close> sets \<^verbatim>\<open>buffer\<close> to \<^verbatim>\<open>'\0'\<close> and leaves
  \<^verbatim>\<open>lastKey\<close> as it is, so \<^verbatim>\<open>MatrixKeypad_hasKey\<close> returns 0 afterwards. A scan that
  follows with the same key still held (the sweep ends with \<^verbatim>\<open>lastKey\<close>) leaves the
  flushed object as it is: the key is not buffered again. A scan with every cell
  reading high followed by a scan whose sweep ends with a key buffers that key.
\<close>

theorem flush_keeps_lastKey:
  "MatrixKeypad_flush (Some keypad) = Some (keypad\<lparr>buffer := NUL\<rparr>) \<and>
   lastKey (keypad\<lparr>buffer := NUL\<rparr>) = lastKey keypad \<and>
   MatrixKeypad_hasKey (MatrixKeypad_flush (Some keypad)) = 0 \<and>
   (scanned_key keypad rd b = lastKey keypad \<longrightarrow>
      fst (MatrixKeypad_scan rd (MatrixKeypad_flush (Some keypad), b)) =
        Some (keypad\<lparr>buffer := NUL\<rparr>)) \<and>
   ((\<forall>r c. r < unat (rown keypad) \<and> c < unat (coln keypad) \<longrightarrow> rd0 r c = HIGH) \<and>
    scanned_key keypad rd b \<noteq> NUL \<longrightarrow>
      (\<exists>keypad' b'.
         MatrixKeypad_scan rd (MatrixKeypad_scan rd0 (MatrixKeypad_flush (Some keypad), b)) =
           (Some keypad', b') \<and>
         buffer keypad' = scanned_key keypad rd b \<and>
         MatrixKeypad_hasKey (Some keypad') = 1))"
proof -
  let ?f = "keypad\<lparr>buffer := NUL\<rparr>"
  have held_key: "scanned_key keypad rd b = lastKey keypad \<longrightarrow>
      fst (MatrixKeypad_scan rd (MatrixKeypad_flush (Some keypad), b)) = Some ?f"
    by (simp add: scan_Some scanned_key_fields [of ?f keypad rd b b])
  have again: "\<exists>keypad' b'.
         MatrixKeypad_scan rd (MatrixKeypad_scan rd0 (MatrixKeypad_flush (Some keypad), b)) =
           (Some keypad', b') \<and>
         buffer keypad' = scanned_key keypad rd b \<and>
         MatrixKeypad_hasKey (Some keypad') = 1"
    if idle: "\<forall>r c. r < unat (rown keypad) \<and> c < unat (coln keypad) \<longrightarrow> rd0 r c = HIGH"
      and key: "scanned_key keypad rd b \<noteq> NUL"
  proof -
    have "scanned_key ?f rd0 b = NUL"
      using idle by (intro scanned_key_idle) auto
    then obtain k1 b1 where st1: "MatrixKeypad_scan rd0 (Some ?f, b) = (Some k1, b1)"
      and k1: "lastKey k1 = NUL" "buffer k1 = NUL"
        "rown k1 = rown keypad" "coln k1 = coln keypad" "keyMap k1 = keyMap keypad"
      by (simp add: scan_Some)
    have st1': "MatrixKeypad_scan rd0 (MatrixKeypad_flush (Some keypad), b) = (Some k1, b1)"
      using st1 by simp
    have "scanned_key k1 rd b1 = scanned_key keypad rd b"
      using k1(3-5) by (rule scanned_key_fields)
    then have st2: "MatrixKeypad_scan rd (Some k1, b1) =
        (Some (k1\<lparr>lastKey := scanned_key keypad rd b, buffer := scanned_key keypad rd b\<rparr>),
         snd (scan_rows k1 rd 0 NUL b1))"
      using key k1(1) by (simp add: scan_Some)
    show ?thesis
      unfolding st1' st2 using key by simp
  qed
  show ?thesis
    using held_key again by simp
qed

theorem flush_keeps_lastKey_witness:
  "fst (MatrixKeypad_scan (held [(1, 2)])
          (MatrixKeypad_flush (Some (ex_keypad\<lparr>lastKey := CHR ''6'', buffer := CHR ''6''\<rparr>)), ex_board)) =
     Some (ex_keypad\<lparr>lastKey := CHR ''6'', buffer := NUL\<rparr>) \<and>
   (\<exists>keypad' b'.
      MatrixKeypad_scan (held [(1, 2)]) (MatrixKeypad_scan (held [])
          (MatrixKeypad_flush (Some (ex_keypad\<lparr>lastKey := CHR ''6'', buffer := CHR ''6''\<rparr>)), ex_board)) =
        (Some keypad', b') \<and>
      buffer keypad' = CHR ''6'' \<and> MatrixKeypad_hasKey (Some keypad') = 1)"
proof -
  let ?k = "ex_keypad\<lparr>lastKey := CHR ''6'', buffer := CHR ''6''\<rparr>"
  have k: "scanned_key ?k (held [(1, 2)]) ex_board = CHR ''6''"
    using ex_scanned_key_6 scanned_key_fields [of ?k ex_keypad "held [(1, 2)]" ex_board ex_board]
    by simp
  have idle: "\<forall>r c. r < unat (rown ?k) \<and> c < unat (coln ?k) \<longrightarrow> held [] r c = HIGH"
    by (simp add: held_def)
  show ?thesis
    using flush_keeps_lastKey [of ?k "held [(1, 2)]" ex_board "held []"] idle
    unfolding k by simp
qed

subsection \<open>The null pointer\<close>

text \<open>
  C5. Called with \<^verbatim>\<open>NULL\<close>, \<^verbatim>\<open>MatrixKeypad_scan\<close> and \<^verbatim>\<open>MatrixKeypad_flush\<close> change
  nothing, the pins included; \<^verbatim>\<open>MatrixKeypad_hasKey\<close> returns 0; \<^verbatim>\<open>MatrixKeypad_getKey\<close>,
  \<^verbatim>\<open>MatrixKeypad_waitForKey\<close> and \<^verbatim>\<open>MatrixKeypad_waitForKeyTimeout\<close> return \<^verbatim>\<open>'\0'\<close>, the
  two waits without a single scan and whatever the bound on the number of scans.
\<close>

theorem null_keypad_noop:
  "MatrixKeypad_scan rd (None, b) = (None, b) \<and>
   MatrixKeypad_hasKey None = 0 \<and>
   MatrixKeypad_getKey None = (NUL, None) \<and>
   MatrixKeypad_waitForKey fuel passes (None, b) = Some (NUL, (None, b), 0) \<and>
   MatrixKeypad_waitForKeyTimeout fuel clock passes (None, b) timeout = Some (NUL, (None, b), 0) \<and>
   MatrixKeypad_flush None = None"
  by (simp add: MatrixKeypad_waitForKey_def MatrixKeypad_waitForKeyTimeout_def)

theorem null_keypad_noop_witness:
  "MatrixKeypad_scan (held [(1, 2)]) (None, ex_board) = (None, ex_board) \<and>
   MatrixKeypad_hasKey None = 0 \<and>
   MatrixKeypad_getKey None = (NUL, None) \<and>
   MatrixKeypad_waitForKey 0 (\<lambda>n. held [(1, 2)]) (None, ex_board) = Some (NUL, (None, ex_board), 0) \<and>
   MatrixKeypad_waitForKeyTimeout 0 (\<lambda>n. 0) (\<lambda>n. held [(1, 2)]) (None, ex_board) 1000 =
     Some (NUL, (None, ex_board), 0) \<and>
   MatrixKeypad_flush None = None"
  by (rule null_keypad_noop)

subsection \<open>Creation\<close>

text \<open>
  C8. \<^verbatim>\<open>MatrixKeypad_create\<close> returns \<^verbatim>\<open>NULL\<close> when \<^verbatim>\<open>malloc\<close> gives no storage, and
  otherwise an object whose \<^verbatim>\<open>lastKey\<close> and \<^verbatim>\<open>buffer\<close> are \<^verbatim>\<open>'\0'\<close> and whose geometry
  and tables are the arguments. It returns for every geometry: each loop of it is a total
  function.
\<close>

theorem create_result:
  "MatrixKeypad_create False keymap rowPins' colPins' rown' coln' b = (None, b) \<and>
   (\<exists>b'. MatrixKeypad_create True keymap rowPins' colPins' rown' coln' b =
      (Some \<lparr>rown = rown', coln = coln', rowPins = rowPins', colPins = colPins',
              keyMap = keymap, lastKey = NUL, buffer = NUL\<rparr>, b'))"
  by (simp add: MatrixKeypad_create_def Let_def)

theorem create_result_witness:
  "MatrixKeypad_create False ex_keymap ex_rowPins ex_colPins 4 3 ex_board = (None, ex_board) \<and>
   (\<exists>b'. MatrixKeypad_create True ex_keymap ex_rowPins ex_colPins 4 3 ex_board = (Some ex_keypad, b'))"
  using create_result [of ex_keymap ex_rowPins ex_colPins 4 3 ex_board]
  by (simp add: ex_keypad_def)

subsection \<open>Waiting for a key\<close>

text \<open>
  C9, as stated, asks for a scan before the buffer is checked for the first time. The
  loop of \<^verbatim>\<open>MatrixKeypad_waitForKey\<close> tests \<^verbatim>\<open>MatrixKeypad_hasKey\<close> first: with \<open>5\<close> already
  in the buffer and the key \<open>6\<close> held down, it returns \<open>5\<close> after no scan at all.
\<close>

theorem waitForKey_scan_first_counterexample:
  "MatrixKeypad_waitForKey 5 (every_pass (held [(1, 2)]))
     (Some (ex_keypad\<lparr>buffer := CHR ''5''\<rparr>), ex_board) =
   Some (CHR ''5'', (Some ex_keypad, ex_board), 0)"
  by (simp add: MatrixKeypad_waitForKey_def ex_keypad_def eval_nat_numeral)

text \<open>
  C9, amended. On a keypad object \<^verbatim>\<open>MatrixKeypad_waitForKey\<close> checks \<^verbatim>\<open>MatrixKeypad_hasKey\<close>
  first and scans only while it returns 0: when a key is buffered on entry it returns
  that key without scanning; in general it returns after \<open>n\<close> scans exactly when \<open>n\<close> is
  the first number of scans after which \<^verbatim>\<open>MatrixKeypad_hasKey\<close> returns 1 (\<open>n\<close> within the
  bound on the number of scans), and what it returns then is the result of
  \<^verbatim>\<open>MatrixKeypad_getKey\<close> on the state after these \<open>n\<close> scans.
\<close>

theorem waitForKey_checks_first:
  "(buffer keypad \<noteq> NUL \<longrightarrow>
      MatrixKeypad_waitForKey fuel passes (Some keypad, b) =
        Some (buffer keypad, (Some (keypad\<lparr>buffer := NUL\<rparr>), b), 0)) \<and>
   (MatrixKeypad_waitForKey fuel passes (Some keypad, b) = Some (key, st', n) \<longleftrightarrow>
      n \<le> fuel \<and>
      MatrixKeypad_hasKey (fst (scans passes n (Some keypad, b))) = 1 \<and>
      (\<forall>m<n. MatrixKeypad_hasKey (fst (scans passes m (Some keypad, b))) = 0) \<and>
      (key, fst st') = MatrixKeypad_getKey (fst (scans passes n (Some keypad, b))) \<and>
      snd st' = snd (scans passes n (Some keypad, b)))"
proof
  show "buffer keypad \<noteq> NUL \<longrightarrow>
      MatrixKeypad_waitForKey fuel passes (Some keypad, b) =
        Some (buffer keypad, (Some (keypad\<lparr>buffer := NUL\<rparr>), b), 0)"
    by (cases fuel) (simp_all add: MatrixKeypad_waitForKey_def)
next
  let ?st = "(Some keypad, b)"
  have one: "MatrixKeypad_hasKey p = 1 \<longleftrightarrow> MatrixKeypad_hasKey p \<noteq> 0" for p
    using hasKey_0_or_1 [of p] by auto
  show "MatrixKeypad_waitForKey fuel passes ?st = Some (key, st', n) \<longleftrightarrow>
      n \<le> fuel \<and>
      MatrixKeypad_hasKey (fst (scans passes n ?st)) = 1 \<and>
      (\<forall>m<n. MatrixKeypad_hasKey (fst (scans passes m ?st)) = 0) \<and>
      (key, fst st') = MatrixKeypad_getKey (fst (scans passes n ?st)) \<and>
      snd st' = snd (scans passes n ?st)"
  proof (cases "waitForKey_loop fuel passes 0 ?st")
    case None
    then have "\<not> (n \<le> fuel \<and> MatrixKeypad_hasKey (fst (scans passes n ?st)) \<noteq> 0 \<and>
        (\<forall>m<n. MatrixKeypad_hasKey (fst (scans passes m ?st)) = 0))"
      using waitForKey_loop_iff [of fuel passes ?st "scans passes n ?st" n] by simp
    then show ?thesis
      using None by (auto simp: MatrixKeypad_waitForKey_def one)
  next
    case (Some r)
    obtain s j where r: "r = (s, j)" by (cases r)
    have sj: "j \<le> fuel" "s = scans passes j ?st"
      "MatrixKeypad_hasKey (fst (scans passes j ?st)) \<noteq> 0"
      "\<forall>m<j. MatrixKeypad_hasKey (fst (scans passes m ?st)) = 0"
      using Some waitForKey_loop_iff [of fuel passes ?st s j] unfolding r by simp_all
    have uniq: "n = j" if "MatrixKeypad_hasKey (fst (scans passes n ?st)) \<noteq> 0"
      "\<forall>m<n. MatrixKeypad_hasKey (fst (scans passes m ?st)) = 0"
      using that sj(3,4) by (meson linorder_neqE_nat)
    have run: "MatrixKeypad_waitForKey fuel passes ?st =
        Some (fst (MatrixKeypad_getKey (fst s)), (snd (MatrixKeypad_getKey (fst s)), snd s), j)"
      using Some unfolding r by (simp add: MatrixKeypad_waitForKey_def split: prod.splits)
    show ?thesis
    proof
      assume "MatrixKeypad_waitForKey fuel passes ?st = Some (key, st', n)"
      then have "key = fst (MatrixKeypad_getKey (fst s))"
        "st' = (snd (MatrixKeypad_getKey (fst s)), snd s)" "n = j"
        unfolding run by simp_all
      then show "n \<le> fuel \<and>
          MatrixKeypad_hasKey (fst (scans passes n ?st)) = 1 \<and>
          (\<forall>m<n. MatrixKeypad_hasKey (fst (scans passes m ?st)) = 0) \<and>
          (key, fst st') = MatrixKeypad_getKey (fst (scans passes n ?st)) \<and>
          snd st' = snd (scans passes n ?st)"
        using sj by (simp add: one)
    next
      assume a: "n \<le> fuel \<and>
          MatrixKeypad_hasKey (fst (scans passes n ?st)) = 1 \<and>
          (\<forall>m<n. MatrixKeypad_hasKey (fst (scans passes m ?st)) = 0) \<and>
          (key, fst st') = MatrixKeypad_getKey (fst (scans passes n ?st)) \<and>
          snd st' = snd (scans passes n ?st)"
      then have "n = j"
        using uniq by (simp add: one)
      moreover have "key = fst (MatrixKeypad_getKey (fst (scans passes n ?st)))"
        "fst st' = snd (MatrixKeypad_getKey (fst (scans passes n ?st)))"
        using a by (metis fst_conv, metis snd_conv)
      ultimately show "MatrixKeypad_waitForKey fuel passes ?st = Some (key, st', n)"
        unfolding run using a sj(2) by (simp add: prod_eq_iff)
    qed
  qed
qed

theorem waitForKey_checks_first_witness:
  "MatrixKeypad_waitForKey 5 (every_pass (held [(1, 2)])) (Some ex_keypad, ex_board) =
   Some (CHR ''6'',
         (Some (ex_keypad\<lparr>lastKey := CHR ''6''\<rparr>),
          snd (MatrixKeypad_scan (held [(1, 2)]) (Some ex_keypad, ex_board))),
         1)"
proof -
  let ?st = "(Some ex_keypad, ex_board)"
  have l: "lastKey ex_keypad = NUL" "buffer ex_keypad = NUL"
    by (simp_all add: ex_keypad_def)
  have s0: "MatrixKeypad_hasKey (fst (scans (every_pass (held [(1, 2)])) 0 ?st)) = 0"
    by (simp add: l)
  have s1: "fst (scans (every_pass (held [(1, 2)])) 1 ?st) =
      Some (ex_keypad\<lparr>lastKey := CHR ''6'', buffer := CHR ''6''\<rparr>)"
    by (simp add: every_pass_def scan_Some ex_scanned_key_6 [simplified] l)
  have s1': "snd (scans (every_pass (held [(1, 2)])) 1 ?st) =
      snd (MatrixKeypad_scan (held [(1, 2)]) ?st)"
    by (simp add: every_pass_def)
  let ?P = "every_pass (held [(1, 2)])"
  let ?st' = "(Some (ex_keypad\<lparr>lastKey := CHR ''6''\<rparr>),
               snd (MatrixKeypad_scan (held [(1, 2)]) ?st))"
  have "(1::nat) \<le> 5 \<and>
      MatrixKeypad_hasKey (fst (scans ?P 1 ?st)) = 1 \<and>
      (\<forall>m<1. MatrixKeypad_hasKey (fst (scans ?P m ?st)) = 0) \<and>
      (CHR ''6'', fst ?st') = MatrixKeypad_getKey (fst (scans ?P 1 ?st)) \<and>
      snd ?st' = snd (scans ?P 1 ?st)"
    unfolding s1 s1' using s0 by (simp add: ex_keypad_def)
  then show ?thesis
    by (rule iffD2 [OF conjunct2 [OF waitForKey_checks_first]])
qed

subsection \<open>Waiting with a timeout\<close>

text \<open>
  C4. \<^verbatim>\<open>MatrixKeypad_waitForKeyTimeout\<close> is to scan until a key is buffered or more than
  \<^verbatim>\<open>timeout\<close> milliseconds have passed since entry, also across a wrap of the counter.
  Called when the counter reads 65536, with a timeout of 1000 and no key pressed, the
  function returns \<^verbatim>\<open>'\0'\<close> at its first loop test, one millisecond after entry and without
  a single scan.
\<close>

theorem waitForKeyTimeout_returns_at_once:
  "MatrixKeypad_waitForKeyTimeout 5 (clock_from 65536) (every_pass (held []))
     (Some ex_keypad, ex_board) 1000 =
   Some (NUL, (Some ex_keypad, ex_board), 0)"
proof -
  have "65536 \<le> unat (clock_from 65536 0)" "unat (clock_from 65536 0) \<le> unat (clock_from 65536 1)"
    by (simp_all add: clock_from_def)
  then have "MatrixKeypad_waitForKeyTimeout 5 (clock_from 65536) (every_pass (held []))
     (Some ex_keypad, ex_board) 1000 =
     Some (buffer ex_keypad, (Some (ex_keypad\<lparr>buffer := NUL\<rparr>), ex_board), 0)"
    by (rule waitForKeyTimeout_late_entry)
  then show ?thesis
    by (simp add: ex_keypad_def)
qed

subsection \<open>The state slots hold keys of the map\<close>

text \<open>
  C10. \<^verbatim>\<open>MatrixKeypad_create\<close> returns an object (if any) whose \<^verbatim>\<open>lastKey\<close> and \<^verbatim>\<open>buffer\<close>
  are each \<^verbatim>\<open>'\0'\<close> or an entry of its key map, and \<^verbatim>\<open>MatrixKeypad_scan\<close>,
  \<^verbatim>\<open>MatrixKeypad_getKey\<close>, \<^verbatim>\<open>MatrixKeypad_flush\<close>, \<^verbatim>\<open>MatrixKeypad_waitForKey\<close> and
  \<^verbatim>\<open>MatrixKeypad_waitForKeyTimeout\<close> keep it so, together with the geometry and the key
  map. \<^verbatim>\<open>MatrixKeypad_hasKey\<close> writes nothing: it is a function of the object alone. The
  property holds for every key map, with or without \<^verbatim>\<open>'\0'\<close> among its entries.
\<close>

theorem keys_come_from_map:
  "keys_from_map rn cn km (fst (MatrixKeypad_create malloc_ok km rp cp rn cn b)) \<and>
   (keys_from_map rn cn km p \<longrightarrow>
      keys_from_map rn cn km (fst (MatrixKeypad_scan rd (p, b))) \<and>
      keys_from_map rn cn km (snd (MatrixKeypad_getKey p)) \<and>
      keys_from_map rn cn km (MatrixKeypad_flush p) \<and>
      (\<forall>key st' n. MatrixKeypad_waitForKey fuel passes (p, b) = Some (key, st', n) \<longrightarrow>
         keys_from_map rn cn km (fst st')) \<and>
      (\<forall>key st' n.
         MatrixKeypad_waitForKeyTimeout fuel clock passes (p, b) timeout = Some (key, st', n) \<longrightarrow>
         keys_from_map rn cn km (fst st')))"
proof (intro conjI impI allI)
  show "keys_from_map rn cn km (fst (MatrixKeypad_create malloc_ok km rp cp rn cn b))"
    by (simp add: MatrixKeypad_create_def Let_def)
next
  assume inv: "keys_from_map rn cn km p"
  show "keys_from_map rn cn km (fst (MatrixKeypad_scan rd (p, b)))"
    using inv by (intro scan_keeps_keys_from_map) simp
  show "keys_from_map rn cn km (snd (MatrixKeypad_getKey p))"
    using inv by (rule getKey_keeps_keys_from_map)
  show "keys_from_map rn cn km (MatrixKeypad_flush p)"
    using inv by (cases p) simp_all
  show "keys_from_map rn cn km (fst st')"
    if run: "MatrixKeypad_waitForKey fuel passes (p, b) = Some (key, st', n)" for key st' n
  proof (cases p)
    case None
    then show ?thesis using run by (auto simp: MatrixKeypad_waitForKey_def)
  next
    case (Some keypad)
    then obtain s where "waitForKey_loop fuel passes 0 (p, b) = Some (s, n)"
      and "fst st' = snd (MatrixKeypad_getKey (fst s))"
      using run waitForKey_Some [of fuel passes keypad b key st' n] by auto
    then show ?thesis
      using waitForKey_loop_keeps [of rn cn km "(p, b)" fuel passes 0 s n] inv
        getKey_keeps_keys_from_map by simp
  qed
  show "keys_from_map rn cn km (fst st')"
    if run: "MatrixKeypad_waitForKeyTimeout fuel clock passes (p, b) timeout = Some (key, st', n)"
    for key st' n
  proof (cases p)
    case None
    then show ?thesis using run by (auto simp: MatrixKeypad_waitForKeyTimeout_def)
  next
    case (Some keypad)
    then obtain s where
      "waitForKeyTimeout_loop fuel clock passes (ucast (clock 0)) timeout 0 (p, b) = Some (s, n)"
      and "fst st' = snd (MatrixKeypad_getKey (fst s))"
      using run waitForKeyTimeout_Some [of fuel clock passes keypad b timeout key st' n] by auto
    then show ?thesis
      using waitForKeyTimeout_loop_keeps [of rn cn km "(p, b)" fuel clock passes _ timeout 0 s n] inv
        getKey_keeps_keys_from_map by simp
  qed
qed

theorem keys_come_from_map_witness:
  "keys_from_map 4 3 ex_keymap (Some ex_keypad) \<and>
   keys_from_map 4 3 ex_keymap (fst (MatrixKeypad_scan (held [(1, 2)]) (Some ex_keypad, ex_board))) \<and>
   keys_from_map 4 3 ex_keymap (Some (ex_keypad\<lparr>lastKey := CHR ''6''\<rparr>))"
proof -
  have inv: "keys_from_map 4 3 ex_keymap (Some ex_keypad)"
    by (simp add: ex_keypad_def)
  note all = keys_come_from_map [where rn = 4 and cn = 3 and km = ex_keymap and p = "Some ex_keypad"
      and b = ex_board and rd = "held [(1, 2)]" and fuel = 5
      and passes = "every_pass (held [(1, 2)])"]
  have scan: "keys_from_map 4 3 ex_keymap
      (fst (MatrixKeypad_scan (held [(1, 2)]) (Some ex_keypad, ex_board)))"
    using all inv by blast
  have "\<forall>key st' n.
      MatrixKeypad_waitForKey 5 (every_pass (held [(1, 2)])) (Some ex_keypad, ex_board) =
        Some (key, st', n) \<longrightarrow> keys_from_map 4 3 ex_keymap (fst st')"
    using all inv by blast
  then have "keys_from_map 4 3 ex_keymap (Some (ex_keypad\<lparr>lastKey := CHR ''6''\<rparr>))"
    using ex_waitForKey_run by fastforce
  with inv scan show ?thesis
    by simp
qed

end
